theory Spec2Isabelle
  imports
    Main
    "HOL-Library.Word"
    "HOL-Library.AList"
    "HOL-Library.Char_ord"
    "HOL-Library.List_Lexorder"
    "HOL-Library.Sublist"
    "HOL-Library.Multiset"
    "HOL-Library.Log_Nat"
begin

unbundle bit_operations_syntax

section \<open>redis-view: the namespace trie, its rendering and the value formatter\<close>

text \<open>
  The development embeds the Go program \<^verbatim>\<open>redis-view\<close> in its latest revision, the
  one with the flags \<^verbatim>\<open>--sep\<close> and \<^verbatim>\<open>--only-keys\<close>. The earlier revision,
  \<^verbatim>\<open>main.go\<close>, has the same \<^verbatim>\<open>mapKeys\<close>, \<^verbatim>\<open>isBinary\<close>, \<^verbatim>\<open>bitset\<close> and traversal;
  its \<^verbatim>\<open>populate\<close> is the one here with the separator \<^verbatim>\<open>":"\<close>, and its
  \<^verbatim>\<open>prettyPrint\<close> passes the prefix as it is, with a unit of two spaces.

  A Go \<^verbatim>\<open>string\<close> is a sequence of bytes, and so is an Isabelle \<^typ>\<open>string\<close>: a
  \<^typ>\<open>char\<close> is one byte. The conversions \<^verbatim>\<open>[]byte(s)\<close> and \<^verbatim>\<open>string(b)\<close> are
  therefore the identity, and Go's comparison of strings is the lexicographic order on
  \<^typ>\<open>char list\<close> over the order of the byte values.
\<close>

type_synonym byte = char

subsection \<open>The library function \<^verbatim>\<open>strings.Split\<close>\<close>

text \<open>
  \<^verbatim>\<open>strings.Index(s, substr)\<close>: the offset of the first occurrence of \<^verbatim>\<open>substr\<close> in
  \<^verbatim>\<open>s\<close>; Go's \<^verbatim>\<open>-1\<close> is \<^const>\<open>None\<close>.
\<close>

fun Index :: "string \<Rightarrow> string \<Rightarrow> nat option" where
  "Index [] substr = (if substr = [] then Some 0 else None)"
| "Index (c # s) substr =
     (if prefix substr (c # s) then Some 0 else map_option Suc (Index s substr))"

text \<open>
  The size \<^verbatim>\<open>utf8.DecodeRuneInString\<close> returns for a non-empty string: the width of a
  well-formed UTF-8 sequence at its head, and 1 for a byte that starts none.
\<close>

definition continuation :: "nat \<Rightarrow> nat \<Rightarrow> string \<Rightarrow> nat \<Rightarrow> bool" where
  "continuation lo hi s i = (i < length s \<and> lo \<le> of_char (s ! i) \<and> of_char (s ! i) \<le> hi)"

definition runeWidth :: "string \<Rightarrow> nat" where
  "runeWidth s =
     (let s0 = (of_char (hd s) :: nat);
          tail2 = continuation 0x80 0xBF s 2;
          tail3 = continuation 0x80 0xBF s 3
      in if s0 < 0x80 then 1
         else if s0 < 0xC2 then 1
         else if s0 < 0xE0 then (if continuation 0x80 0xBF s 1 then 2 else 1)
         else if s0 = 0xE0 then (if continuation 0xA0 0xBF s 1 \<and> tail2 then 3 else 1)
         else if s0 = 0xED then (if continuation 0x80 0x9F s 1 \<and> tail2 then 3 else 1)
         else if s0 < 0xF0 then (if continuation 0x80 0xBF s 1 \<and> tail2 then 3 else 1)
         else if s0 = 0xF0 then
           (if continuation 0x90 0xBF s 1 \<and> tail2 \<and> tail3 then 4 else 1)
         else if s0 < 0xF4 then
           (if continuation 0x80 0xBF s 1 \<and> tail2 \<and> tail3 then 4 else 1)
         else if s0 = 0xF4 then
           (if continuation 0x80 0x8F s 1 \<and> tail2 \<and> tail3 then 4 else 1)
         else 1)"

lemma runeWidth_pos: "0 < runeWidth s"
  by (simp add: runeWidth_def Let_def)

text \<open>
  \<^verbatim>\<open>explode(s, -1)\<close>, the branch of \<^verbatim>\<open>strings.Split\<close> for the empty separator: one
  string per UTF-8 sequence, invalid bytes sliced one by one (older releases of the
  library put the encoding of U+FFFD in the place of an invalid byte; the pieces are as
  many). The empty string explodes to no string at all.
\<close>

function explode :: "string \<Rightarrow> string list" where
  "explode s =
     (if s = [] then [] else take (runeWidth s) s # explode (drop (runeWidth s) s))"
  by pat_completeness auto
termination
  by (relation "measure length") (simp_all add: runeWidth_pos)

declare explode.simps [simp del]

lemma Index_bound: "Index s substr = Some m \<Longrightarrow> m + length substr \<le> length s"
proof (induction s arbitrary: m)
  case Nil
  then show ?case by (simp split: if_splits)
next
  case (Cons c s)
  show ?case
  proof (cases "prefix substr (c # s)")
    case True
    with Cons.prems have "m = 0" by simp
    with prefix_length_le [OF True] show ?thesis by simp
  next
    case False
    with Cons.prems obtain m' where "Index s substr = Some m'" "m = Suc m'"
      by auto
    with Cons.IH [of m'] show ?thesis by simp
  qed
qed

text \<open>
  \<^verbatim>\<open>strings.Split(s, sep)\<close>, that is \<^verbatim>\<open>genSplit(s, sep, 0, -1)\<close>: cut \<^verbatim>\<open>s\<close> at every
  occurrence of \<^verbatim>\<open>sep\<close>, searching from the left and resuming after the occurrence.
  Nothing drops an empty piece.
\<close>

function Split :: "string \<Rightarrow> string \<Rightarrow> string list" where
  "Split s sep =
     (if sep = [] then explode s
      else case Index s sep of
             None \<Rightarrow> [s]
           | Some m \<Rightarrow> take m s # Split (drop (m + length sep) s) sep)"
  by pat_completeness auto
termination
proof (relation "measure (\<lambda>(s, sep). length s)")
  show "wf (measure (\<lambda>(s, sep). length s))" by simp
next
  fix s sep :: string and m :: nat
  assume sep: "sep \<noteq> []" and "Index s sep = Some m"
  then have "m + length sep \<le> length s"
    by (simp add: Index_bound)
  moreover from sep have "0 < length sep"
    by simp
  ultimately have "length s - (m + length sep) < length s"
    by arith
  then show "((drop (m + length sep) s, sep), (s, sep)) \<in> measure (\<lambda>(s, sep). length s)"
    by simp
qed

declare Split.simps [simp del]

subsection \<open>The trie\<close>

text \<open>
  \<^verbatim>\<open>type treeNode struct { value string; children map[string]treeNode }\<close>.
  A Go map is a reference: \<^const>\<open>None\<close> is the nil map, and \<^term>\<open>Some m\<close> is an
  allocated map whose entries are the association list \<open>m\<close>, in some order of
  iteration (Go leaves it unspecified), each key once. Every map of the program is
  made by \<^verbatim>\<open>make\<close> for one node and reached through that node only, so the update in
  place through the copied struct (\<^verbatim>\<open>node = node.children[part]\<close>) is the update of
  that node's entries, and the model returns the updated tree.
\<close>

datatype treeNode =
  TreeNode (val: string) (children: "(string \<times> treeNode) list option")

text \<open>A write to the nil map panics.\<close>

datatype error = AssignmentToEntryInNilMap

text \<open>
  The inner loop of \<^verbatim>\<open>populate\<close>, over the parts of one key: at each part, look the
  part up in the current node's children, store a fresh node (with a map made by
  \<^verbatim>\<open>make\<close>) where it is absent, and step into the child.
\<close>

fun populate_parts :: "treeNode \<Rightarrow> string list \<Rightarrow> error + treeNode" where
  "populate_parts node [] = Inr node"
| "populate_parts node (part # parts) =
     (case children node of
        None \<Rightarrow> Inl AssignmentToEntryInNilMap
      | Some m \<Rightarrow>
          (case map_of m part of
             None \<Rightarrow>
               (case populate_parts (TreeNode part (Some [])) parts of
                  Inl e \<Rightarrow> Inl e
                | Inr child \<Rightarrow> Inr (TreeNode (val node) (Some (m @ [(part, child)]))))
           | Some node' \<Rightarrow>
               (case populate_parts node' parts of
                  Inl e \<Rightarrow> Inl e
                | Inr child \<Rightarrow>
                    Inr (TreeNode (val node) (Some (AList.update part child m))))))"

text \<open>\<^verbatim>\<open>populate(tree, keys, sep)\<close>: the outer loop, over the keys in their order.\<close>

fun populate :: "treeNode \<Rightarrow> string list \<Rightarrow> string \<Rightarrow> error + treeNode" where
  "populate tree [] sep = Inr tree"
| "populate tree (key # keys) sep =
     (case populate_parts tree (Split key sep) of
        Inl e \<Rightarrow> Inl e
      | Inr tree' \<Rightarrow> populate tree' keys sep)"

text \<open>The root \<^verbatim>\<open>main\<close> makes: \<^verbatim>\<open>&treeNode{value: "/", children: make(...)}\<close>.\<close>

definition rootNode :: treeNode where
  "rootNode = TreeNode ''/'' (Some [])"

subsection \<open>Reading a Go map\<close>

text \<open>
  \<^verbatim>\<open>len(m)\<close> is 0 for the nil map. \<^verbatim>\<open>m[k]\<close> of the nil map, and of a key that is
  absent, is the zero value of the element type: here the node with the empty label
  and the nil map.
\<close>

definition len :: "(string \<times> 'a) list option \<Rightarrow> nat" where
  "len m = (case m of None \<Rightarrow> 0 | Some kvs \<Rightarrow> length kvs)"

definition zeroNode :: treeNode where
  "zeroNode = TreeNode [] None"

definition mapIndex :: "(string \<times> treeNode) list option \<Rightarrow> string \<Rightarrow> treeNode" where
  "mapIndex m k =
     (case m of
        None \<Rightarrow> zeroNode
      | Some kvs \<Rightarrow> (case map_of kvs k of None \<Rightarrow> zeroNode | Some n \<Rightarrow> n))"

text \<open>
  \<^verbatim>\<open>mapKeys(m)\<close>: the keys collected by ranging over the map, then \<^verbatim>\<open>sort.Strings\<close>.
\<close>

definition mapKeys :: "(string \<times> treeNode) list option \<Rightarrow> string list" where
  "mapKeys m = sort (case m of None \<Rightarrow> [] | Some kvs \<Rightarrow> map fst kvs)"

subsection \<open>The binary heuristic and the bit string\<close>

text \<open>
  IEEE 754 binary64 with rounding to nearest, ties to even, on the non-negative
  rationals of the normal range: \<open>float64 x\<close> is the value of the double nearest to
  \<open>x\<close>. \<open>binade x\<close> is the exponent of \<open>x\<close>, the integer \<open>e\<close> with
  \<open>2\<^sup>e \<le> x < 2\<^sup>e\<^sup>+\<^sup>1\<close>; a double of that binade is a multiple of \<open>2\<^sup>e\<^sup>-\<^sup>5\<^sup>2\<close>.
\<close>

definition binade :: "rat \<Rightarrow> int" where
  "binade x = (if 1 \<le> x then bitlen \<lfloor>x\<rfloor> - 1 else - bitlen (\<lceil>1 / x\<rceil> - 1))"

definition roundHalfEven :: "rat \<Rightarrow> int" where
  "roundHalfEven x =
     (let f = \<lfloor>x\<rfloor>; d = x - of_int f
      in if d < 1 / 2 then f
         else if 1 / 2 < d then f + 1
         else if even f then f else f + 1)"

definition float64 :: "rat \<Rightarrow> rat" where
  "float64 x =
     (if x \<le> 0 then 0
      else let ulp = 2 powi (binade x - 52)
           in of_int (roundHalfEven (x / ulp)) * ulp)"

text \<open>The bytes \<^verbatim>\<open>isBinary\<close> does not count: the test of its loop.\<close>

definition visible :: "byte \<Rightarrow> bool" where
  "visible b =
     (((32::nat) \<le> of_char b \<and> of_char b < (127::nat)) \<or> b = CHR 0x0A \<or> b = CHR 0x09
      \<or> b = CHR ''r'' \<or> b = CHR ''f'' \<or> b = CHR ''b'')"

definition isBinary :: "byte list \<Rightarrow> bool" where
  "isBinary bytes =
     (if length bytes = 0 then False
      else let invisible =
                 fold (\<lambda>b invisible. if visible b then invisible else invisible + 1)
                   bytes (0::nat)
           in float64 (3 / 10)
                \<le> float64 (float64 (of_nat invisible) / float64 (of_nat (length bytes))))"

text \<open>
  \<^verbatim>\<open>bitset\<close>: the array of \<open>8 * len(bytes)\<close> zero bytes, written at
  \<open>index * 8 + (7 - i)\<close> for every byte and every \<open>i\<close> from 0 to 7. The inner
  loop, over \<open>i\<close>, is \<open>bitsetByte\<close>.
\<close>

definition bitsetByte :: "nat \<Rightarrow> byte \<Rightarrow> byte list \<Rightarrow> byte list" where
  "bitsetByte index char seq =
     fold (\<lambda>i seq.
             let bit = drop_bit i (of_char char :: 8 word) AND 1
             in if bit = 0 then seq[index * 8 + (7 - i) := CHR ''0'']
                else seq[index * 8 + (7 - i) := CHR ''1''])
       [0..<8] seq"

definition bitset :: "byte list \<Rightarrow> byte list" where
  "bitset bytes =
     fold (\<lambda>(index, char) seq. bitsetByte index char seq)
       (enumerate 0 bytes)
       (replicate (8 * length bytes) (CHR 0x00))"

subsection \<open>The value formatter\<close>

text \<open>
  What \<^verbatim>\<open>query\<close> puts in its \<^verbatim>\<open>interface{}\<close> result: nothing (no case of the switch
  ran), a \<^verbatim>\<open>string\<close>, a \<^verbatim>\<open>[]string\<close> or a \<^verbatim>\<open>map[string]string\<close> (its entries, each
  key once).
\<close>

datatype fetched =
  Nothing
| Scalar string
| Sequence "string list"
| FieldMap "(string \<times> string) list"

text \<open>
  The functions of other packages, which the program only calls: \<^verbatim>\<open>ansi.Color\<close>,
  \<^verbatim>\<open>json.Marshal\<close> and \<^verbatim>\<open>json.MarshalIndent\<close> (the bytes they return; the program
  drops their errors).
\<close>

record library =
  ansiColor :: "string \<Rightarrow> string \<Rightarrow> string"
  jsonMarshal :: "fetched \<Rightarrow> string"
  jsonMarshalIndent :: "fetched \<Rightarrow> string \<Rightarrow> string \<Rightarrow> string"

definition prettyPrint :: "library \<Rightarrow> fetched \<Rightarrow> string \<Rightarrow> bool \<Rightarrow> bool \<Rightarrow> string" where
  "prettyPrint lib v pfx wrap isLast =
     (let newPrefix = (if \<not> isLast then pfx @ ''|'' else pfx)
      in case v of
           FieldMap m \<Rightarrow>
             if \<not> wrap \<or> length m \<le> 1 then jsonMarshal lib v
             else jsonMarshalIndent lib v newPrefix ''   ''
         | Sequence xs \<Rightarrow>
             if \<not> wrap \<or> length xs \<le> 1 then jsonMarshal lib v
             else jsonMarshalIndent lib v newPrefix ''   ''
         | Scalar s \<Rightarrow> if isBinary s then bitset s else s
         | Nothing \<Rightarrow> [])"

subsection \<open>The lookup\<close>

text \<open>
  The replies of the store to the commands the program sends, each read with the
  conversion the program applies (\<^verbatim>\<open>Str\<close>, \<^verbatim>\<open>Int64\<close>, \<^verbatim>\<open>List\<close>, \<^verbatim>\<open>Hash\<close>).
  \<^verbatim>\<open>query\<close> drops the errors and keeps the value returned with them; \<^verbatim>\<open>main\<close> looks
  at the error of \<^verbatim>\<open>KEYS\<close>, which is \<^const>\<open>None\<close> here. The store is taken at one
  moment: a command gets the same reply each time.
\<close>

record redis =
  cmdKeys :: "string \<Rightarrow> string list option"
  cmdType :: "string \<Rightarrow> string"
  cmdTtl :: "string \<Rightarrow> 64 word"
  cmdGet :: "string \<Rightarrow> string"
  cmdLrange :: "string \<Rightarrow> string list"
  cmdSmembers :: "string \<Rightarrow> string list"
  cmdHgetall :: "string \<Rightarrow> (string \<times> string) list"
  cmdZrange :: "string \<Rightarrow> (string \<times> string) list"

text \<open>The package variables, as \<^verbatim>\<open>main\<close> sets them from the command line.\<close>

record globals =
  redisClient :: redis
  patterns :: "string list"
  wrap :: bool
  turnOnColor :: bool
  keySep :: string
  onlyKeys :: bool

definition query :: "globals \<Rightarrow> string \<Rightarrow> string \<times> 64 word \<times> fetched" where
  "query g key =
     (let r = redisClient g;
          rtype = cmdType r key;
          ttl = cmdTtl r key
      in if onlyKeys g then (rtype, ttl, Scalar [])
         else (rtype, ttl,
               if rtype = ''string'' then Scalar (cmdGet r key)
               else if rtype = ''list'' then Sequence (cmdLrange r key)
               else if rtype = ''set'' then Sequence (cmdSmembers r key)
               else if rtype = ''hash'' then FieldMap (cmdHgetall r key)
               else if rtype = ''zset'' then FieldMap (cmdZrange r key)
               else Nothing))"

subsection \<open>The renderer\<close>

definition colorize :: "globals \<Rightarrow> library \<Rightarrow> string \<Rightarrow> string \<Rightarrow> string" where
  "colorize g lib s style = (if turnOnColor g then ansiColor lib s style else s)"

text \<open>\<^verbatim>\<open>strconv.Itoa\<close>: the decimal numeral of an integer.\<close>

fun decimal :: "nat \<Rightarrow> string" where
  "decimal n =
     (if n < 10 then [char_of (48 + n)]
      else decimal (n div 10) @ [char_of (48 + n mod 10)])"

declare decimal.simps [simp del]

definition Itoa :: "int \<Rightarrow> string" where
  "Itoa i = (if i < 0 then CHR ''-'' # decimal (nat (- i)) else decimal (nat i))"

text \<open>
  The three box-drawing strings of the source, in the bytes of their UTF-8 encoding:
  the corner U+2514 and the tee U+251C, each with two dashes U+2500 and a space, and
  the bar U+2502 with three spaces.
\<close>

definition cornerGlyph :: string where
  "cornerGlyph =
     [CHR 0xE2, CHR 0x94, CHR 0x94, CHR 0xE2, CHR 0x94, CHR 0x80,
      CHR 0xE2, CHR 0x94, CHR 0x80, CHR 0x20]"

definition teeGlyph :: string where
  "teeGlyph =
     [CHR 0xE2, CHR 0x94, CHR 0x9C, CHR 0xE2, CHR 0x94, CHR 0x80,
      CHR 0xE2, CHR 0x94, CHR 0x80, CHR 0x20]"

definition barGlyph :: string where
  "barGlyph = [CHR 0xE2, CHR 0x94, CHR 0x82, CHR 0x20, CHR 0x20, CHR 0x20]"

text \<open>
  What the renderer does to the outside, in order: a call of \<^verbatim>\<open>query\<close> with its key,
  and a call \<^verbatim>\<open>fmt.Printf("%s%s%s %s\n", leading, sep, nodeVal, extra)\<close> with its four
  arguments.
\<close>

datatype effect =
  Query string
| Printf string string string string

definition printed :: "effect \<Rightarrow> string" where
  "printed e =
     (case e of
        Query key \<Rightarrow> []
      | Printf leading sep nodeVal extra \<Rightarrow>
          leading @ sep @ nodeVal @ '' '' @ extra @ [CHR 0x0A])"

definition plotNode ::
  "globals \<Rightarrow> library \<Rightarrow> treeNode \<Rightarrow> string \<Rightarrow> string \<Rightarrow> bool \<Rightarrow> effect list" where
  "plotNode g lib node key leading isLast =
     (let sep = (if isLast then cornerGlyph else teeGlyph);
          nodeVal = colorize g lib (val node) ''blue''
      in if len (children node) = 0 then
           (let (rtype, ttl, v) = query g key;
                sttl = (if ttl \<noteq> - 1 then Itoa (sint ttl) else []);
                extra = ''#'' @ '' '' @ colorize g lib rtype ''yellow'' @ '' ''
                        @ colorize g lib sttl ''red'' @ '' ''
                        @ prettyPrint lib v leading (wrap g) isLast
            in [Query key, Printf leading sep nodeVal extra])
         else [Printf leading sep nodeVal []])"

text \<open>
  \<^verbatim>\<open>plot\<close>, with the call of \<^verbatim>\<open>plotNode\<close> as the parameter \<open>visit\<close>: the program is
  \<open>plot (plotNode g lib)\<close>, and the same traversal with a \<open>visit\<close> that records its
  arguments gives the calls of \<^verbatim>\<open>plotNode\<close> in their order. The recursion ends
  because every key \<^verbatim>\<open>mapKeys\<close> returns is a key of the map, whose node is a part of
  the node at hand.
\<close>

lemma size_child:
  assumes "(k, n) \<in> set kvs"
  shows "size n < size (TreeNode v (Some kvs))"
proof -
  have "size n \<le> size_prod (\<lambda>x. 0) size (k, n)"
    by simp
  with assms have "size n \<le> size_list (size_prod (\<lambda>x. 0) size) kvs"
    by (rule size_list_estimation')
  then show ?thesis
    by simp
qed

lemma mapIndex_in_set:
  assumes "part \<in> set (mapKeys (Some kvs))"
  shows "(part, mapIndex (Some kvs) part) \<in> set kvs"
proof -
  from assms have "part \<in> fst ` set kvs"
    by (simp add: mapKeys_def)
  then obtain n where "map_of kvs part = Some n"
    by (metis map_of_eq_None_iff not_Some_eq)
  then show ?thesis
    by (simp add: mapIndex_def map_of_SomeD)
qed

lemma size_mapIndex:
  assumes "part \<in> set (mapKeys (children node))"
  shows "size (mapIndex (children node) part) < size node"
proof (cases node)
  case (TreeNode v c)
  show ?thesis
  proof (cases c)
    case None
    with TreeNode assms show ?thesis
      by (simp add: mapKeys_def)
  next
    case (Some kvs)
    with TreeNode assms have "(part, mapIndex (Some kvs) part) \<in> set kvs"
      by (simp add: mapIndex_in_set)
    then have "size (mapIndex (Some kvs) part) < size (TreeNode v (Some kvs))"
      by (rule size_child)
    with TreeNode Some show ?thesis
      by simp
  qed
qed

function plot ::
  "(treeNode \<Rightarrow> string \<Rightarrow> string \<Rightarrow> bool \<Rightarrow> 'a list) \<Rightarrow> treeNode \<Rightarrow> string \<Rightarrow> string \<Rightarrow> 'a list"
  where
  "plot visit node key leading =
     (let parts = mapKeys (children node)
      in concat
           (map (\<lambda>(index, part).
                   let newKey = (if key = [] then part else key @ '':'' @ part);
                       isLast = (int index = int (length parts) - 1);
                       newLeading =
                         (if isLast then leading @ ''    '' else leading @ barGlyph)
                   in visit (mapIndex (children node) part) newKey leading isLast
                      @ plot visit (mapIndex (children node) part) newKey newLeading)
              (enumerate 0 parts)))"
  by pat_completeness auto
termination
proof (relation "measure (\<lambda>(visit, node, key, leading). size node)")
  show "wf (measure (\<lambda>(visit :: treeNode \<Rightarrow> string \<Rightarrow> string \<Rightarrow> bool \<Rightarrow> 'a list, node, key :: string, leading :: string). size node))"
    by simp
next
  fix visit :: "treeNode \<Rightarrow> string \<Rightarrow> string \<Rightarrow> bool \<Rightarrow> 'a list"
  fix node :: treeNode and key leading newKey newLeading part :: string
  fix parts and ip :: "nat \<times> string" and index :: nat
  assume "parts = mapKeys (children node)" and "ip \<in> set (enumerate 0 parts)"
    and "(index, part) = ip"
  then have "part \<in> set (mapKeys (children node))"
    by (auto simp: in_set_enumerate_eq)
  then have "size (mapIndex (children node) part) < size node"
    by (rule size_mapIndex)
  then show "((visit, mapIndex (children node) part, newKey, newLeading), (visit, node, key, leading))
      \<in> measure (\<lambda>(visit, node, key, leading). size node)"
    by simp
qed

declare plot.simps [simp del]



text \<open>
  \<^verbatim>\<open>main\<close>, from the point where the options are read and the connection is open: the
  loop over the patterns, which skips a pattern whose \<^verbatim>\<open>KEYS\<close> command fails, and the
  rendering of the tree.
\<close>

fun mainLoop :: "redis \<Rightarrow> string \<Rightarrow> treeNode \<Rightarrow> string list \<Rightarrow> error + treeNode" where
  "mainLoop r sep tree [] = Inr tree"
| "mainLoop r sep tree (pattern # rest) =
     (case cmdKeys r pattern of
        None \<Rightarrow> mainLoop r sep tree rest
      | Some keys \<Rightarrow>
          (case populate tree keys sep of
             Inl e \<Rightarrow> Inl e
           | Inr tree' \<Rightarrow> mainLoop r sep tree' rest))"

definition main :: "globals \<Rightarrow> library \<Rightarrow> error + effect list" where
  "main g lib =
     (case mainLoop (redisClient g) (keySep g) rootNode (patterns g) of
        Inl e \<Rightarrow> Inl e
      | Inr tree \<Rightarrow> Inr (plot (plotNode g lib) tree [] []))"

section \<open>Notions of the specification\<close>

subsection \<open>Tries\<close>

text \<open>
  A run of \<^verbatim>\<open>populate\<close> calls on one tree, each with its keys and its separator.
  The loop of \<^verbatim>\<open>main\<close> over the patterns is such a run from \<^const>\<open>rootNode\<close>, with the one
  separator \<^verbatim>\<open>keySep\<close> (\<open>mainLoop_ingests\<close> below).
\<close>

fun ingests :: "treeNode \<Rightarrow> (string list \<times> string) list \<Rightarrow> error + treeNode" where
  "ingests tree [] = Inr tree"
| "ingests tree ((keys, sep) # rest) =
     (case populate tree keys sep of
        Inl e \<Rightarrow> Inl e
      | Inr tree' \<Rightarrow> ingests tree' rest)"

text \<open>
  Three properties of a tree, each of all its nodes: the children map is allocated; a
  child stored under a key has that key as its label; the entries of a map have
  distinct keys, which is what makes the list of entries a Go map.
\<close>

fun allocated :: "treeNode \<Rightarrow> bool" where
  "allocated (TreeNode v None) = False"
| "allocated (TreeNode v (Some kvs)) = list_all (\<lambda>(k, n). allocated n) kvs"

fun labelled :: "treeNode \<Rightarrow> bool" where
  "labelled (TreeNode v None) = True"
| "labelled (TreeNode v (Some kvs)) = list_all (\<lambda>(k, n). val n = k \<and> labelled n) kvs"

fun keysOnce :: "treeNode \<Rightarrow> bool" where
  "keysOnce (TreeNode v None) = True"
| "keysOnce (TreeNode v (Some kvs)) =
     (distinct (map fst kvs) \<and> list_all (\<lambda>(k, n). keysOnce n) kvs)"

definition sound :: "treeNode \<Rightarrow> bool" where
  "sound t = (allocated t \<and> labelled t \<and> keysOnce t)"

text \<open>
  The tree with one branch: under a node labelled \<open>v\<close>, one node for each part in
  turn. It is what ingesting one key into a node without children builds.
\<close>

fun chain :: "string \<Rightarrow> string list \<Rightarrow> treeNode" where
  "chain v [] = TreeNode v (Some [])"
| "chain v (part # parts) = TreeNode v (Some [(part, chain part parts)])"

text \<open>
  The leaves of a tree, each as the labels on the way to it from the root (the root's
  own label left out), and the depth of each leaf: the number of edges on that way.
\<close>

fun leafPaths :: "treeNode \<Rightarrow> string list list" where
  "leafPaths (TreeNode v None) = [[]]"
| "leafPaths (TreeNode v (Some kvs)) =
     (if kvs = [] then [[]]
      else concat (map (\<lambda>(k, n). map ((#) (val n)) (leafPaths n)) kvs))"

definition leafDepths :: "treeNode \<Rightarrow> nat list" where
  "leafDepths t = map length (leafPaths t)"

text \<open>
  Comparison of two trees by their labels: the same label at the root, and under it
  the same keys, whatever the order of the entries, with trees under the same key that
  compare equal in turn. A nil map is equal to a nil map only.
\<close>

fun treeEq :: "treeNode \<Rightarrow> treeNode \<Rightarrow> bool" where
  "treeEq (TreeNode v c) (TreeNode v' c') =
     (v = v' \<and>
      (case (c, c') of
         (None, None) \<Rightarrow> True
       | (Some kvs, Some kvs') \<Rightarrow>
           list_all (\<lambda>(k, n). case map_of kvs' k of None \<Rightarrow> False | Some n' \<Rightarrow> treeEq n n') kvs
           \<and> list_all (\<lambda>(k, n'). map_of kvs k \<noteq> None) kvs'
       | _ \<Rightarrow> False))"

text \<open>A tree has a path when it has a node at the end of these keys, taken from the root.\<close>

fun hasPath :: "treeNode \<Rightarrow> string list \<Rightarrow> bool" where
  "hasPath t [] = True"
| "hasPath t (k # ks) =
     (case children t of
        None \<Rightarrow> False
      | Some m \<Rightarrow> (case map_of m k of None \<Rightarrow> False | Some n \<Rightarrow> hasPath n ks))"

text \<open>The non-empty segments of a key, as the specification counts them.\<close>

definition segments :: "string \<Rightarrow> string \<Rightarrow> string list" where
  "segments key sep = filter (\<lambda>s. s \<noteq> []) (Split key sep)"

text \<open>Labels joined with a separator (\<^verbatim>\<open>strings.Join\<close>).\<close>

fun join :: "string list \<Rightarrow> string \<Rightarrow> string" where
  "join [] sep = []"
| "join [s] sep = s"
| "join (s # t # rest) sep = s @ sep @ join (t # rest) sep"

subsection \<open>Rendering\<close>

text \<open>The keys the renderer passes to \<^verbatim>\<open>query\<close>, in order.\<close>

definition queried :: "effect list \<Rightarrow> string list" where
  "queried es =
     concat (map (\<lambda>e. case e of Query key \<Rightarrow> [key] | Printf a b c d \<Rightarrow> []) es)"

text \<open>
  The loop of \<^verbatim>\<open>plot\<close> from its iteration \<open>i\<close> on, over the parts that remain, \<open>n\<close>
  being the number of all parts. It is \<^const>\<open>plot\<close> again (\<open>plot_plotFrom\<close> below), in
  a form that unfolds on a list of parts that is known.
\<close>

fun plotFrom ::
  "(treeNode \<Rightarrow> string \<Rightarrow> string \<Rightarrow> bool \<Rightarrow> 'a list) \<Rightarrow> treeNode \<Rightarrow> string \<Rightarrow> string
   \<Rightarrow> nat \<Rightarrow> nat \<Rightarrow> string list \<Rightarrow> 'a list"
  where
  "plotFrom visit node key leading n i [] = []"
| "plotFrom visit node key leading n i (part # rest) =
     (let newKey = (if key = [] then part else key @ '':'' @ part);
          isLast = (int i = int n - 1);
          newLeading = (if isLast then leading @ ''    '' else leading @ barGlyph)
      in visit (mapIndex (children node) part) newKey leading isLast
         @ plot visit (mapIndex (children node) part) newKey newLeading
         @ plotFrom visit node key leading n (Suc i) rest)"






subsection \<open>An example\<close>

text \<open>
  The tree of the keys \<^verbatim>\<open>b:x\<close>, \<^verbatim>\<open>a\<close> and \<^verbatim>\<open>b:a\<close>, ingested in this order with the
  separator \<^verbatim>\<open>":"\<close>; a store where every key holds the string \<^verbatim>\<open>v\<close> and never
  expires; and stand-ins for the functions of the other packages.
\<close>

definition exampleTree :: treeNode where
  "exampleTree =
     TreeNode ''/''
       (Some [(''b'', TreeNode ''b'' (Some [(''x'', TreeNode ''x'' (Some [])),
                                             (''a'', TreeNode ''a'' (Some []))])),
              (''a'', TreeNode ''a'' (Some []))])"

text \<open>The tree of the same keys ingested in the order \<^verbatim>\<open>a\<close>, \<^verbatim>\<open>b:a\<close>, \<^verbatim>\<open>b:x\<close>.\<close>

definition exampleTreeSorted :: treeNode where
  "exampleTreeSorted =
     TreeNode ''/''
       (Some [(''a'', TreeNode ''a'' (Some [])),
              (''b'', TreeNode ''b'' (Some [(''a'', TreeNode ''a'' (Some [])),
                                             (''x'', TreeNode ''x'' (Some []))]))])"



definition exampleLibrary :: library where
  "exampleLibrary =
     \<lparr>ansiColor = (\<lambda>s style. s), jsonMarshal = (\<lambda>v. ''null''),
      jsonMarshalIndent = (\<lambda>v p i. ''null'')\<rparr>"

subsection \<open>The binary heuristic\<close>

text \<open>The bytes \<^verbatim>\<open>isBinary\<close> counts: those its test does not let pass.\<close>

definition invisibleCount :: "byte list \<Rightarrow> nat" where
  "invisibleCount bytes = length (filter (\<lambda>b. \<not> visible b) bytes)"

subsection \<open>Bit strings\<close>

text \<open>
  The eight characters of a byte, most significant bit first: the character at
  position \<open>j\<close> is the bit of index \<open>7 - j\<close>.
\<close>

definition bitChar :: "byte \<Rightarrow> nat \<Rightarrow> char" where
  "bitChar b k = (if bit (of_char b :: nat) k then CHR ''1'' else CHR ''0'')"

definition bits :: "byte \<Rightarrow> string" where
  "bits b = map (\<lambda>j. bitChar b (7 - j)) [0..<8]"

text \<open>
  Decoding, as the specification words it: a string of \<^verbatim>\<open>'0'\<close> and \<^verbatim>\<open>'1'\<close> read as a
  binary numeral, most significant digit first, and a text cut into chunks of eight
  characters, each chunk the numeral of one byte.
\<close>

definition numeral2 :: "string \<Rightarrow> nat" where
  "numeral2 s = foldl (\<lambda>acc c. 2 * acc + (if c = CHR ''1'' then 1 else 0)) 0 s"

fun decodeBits :: "string \<Rightarrow> byte list" where
  "decodeBits s =
     (if length s < 8 then []
      else char_of (numeral2 (take 8 s)) # decodeBits (drop 8 s))"

declare decodeBits.simps [simp del]

section \<open>Unfolding the traversal\<close>

lemma concat_enumerate_plotFrom:
  "concat
     (map (\<lambda>(index, part).
             let newKey = (if key = [] then part else key @ '':'' @ part);
                 isLast = (int index = int n - 1);
                 newLeading = (if isLast then leading @ ''    '' else leading @ barGlyph)
             in visit (mapIndex (children node) part) newKey leading isLast
                @ plot visit (mapIndex (children node) part) newKey newLeading)
        (enumerate i rest))
   = plotFrom visit node key leading n i rest"
  by (induction rest arbitrary: i) (simp_all add: Let_def)

lemma plot_plotFrom:
  "plot visit node key leading
   = plotFrom visit node key leading (length (mapKeys (children node))) 0
       (mapKeys (children node))"
  using concat_enumerate_plotFrom
    [of key "length (mapKeys (children node))" leading visit node 0 "mapKeys (children node)"]
  by (subst plot.simps) (simp add: Let_def)









section \<open>The bit string\<close>

lemma upt_8: "[0..<8] = [0, 1, 2, 3, 4, 5, 6, 7]"
  by code_simp

lemma bits_rev: "bits b = rev (map (bitChar b) [0..<8])"
  by (simp add: bits_def upt_8)

lemma numeral2_rev: "numeral2 (rev s) = horner_sum (\<lambda>c. if c = CHR ''1'' then 1 else 0) 2 s"
  by (induction s) (simp_all add: numeral2_def)

lemma numeral2_bits: "numeral2 (bits b) = of_char b"
proof -
  have "numeral2 (bits b) = horner_sum of_bool 2 (map (bit (of_char b :: nat)) [0..<8])"
    unfolding bits_rev numeral2_rev horner_sum_foldr
    by (simp add: upt_8 bitChar_def)
  also have "\<dots> = take_bit 8 (of_char b :: nat)"
    by (rule horner_sum_bit_eq_take_bit)
  also have "\<dots> = of_char b"
    by (simp add: take_bit_eq_mod)
  finally show ?thesis .
qed

lemma bit_word_of_char: "bit (of_char c :: 8 word) i = (i < 8 \<and> bit (of_char c :: nat) i)"
proof -
  have "(of_char c :: 8 word) = of_nat (of_char c)"
    by (simp add: of_nat_of_char)
  then show ?thesis
    by (simp only: bit_of_nat_iff) (auto simp: possible_bit_word)
qed

lemma bit_test:
  assumes "i < 8"
  shows "(drop_bit i (of_char c :: 8 word) AND 1 = 0) = (\<not> bit (of_char c :: nat) i)"
proof -
  have "(drop_bit i (of_char c :: 8 word) AND 1 = 0) = even (drop_bit i (of_char c :: 8 word))"
    by (simp add: and_one_eq even_iff_mod_2_eq_zero)
  also have "\<dots> = (\<not> bit (of_char c :: 8 word) i)"
    by (simp add: bit_iff_odd_drop_bit)
  finally show ?thesis
    using assms by (simp add: bit_word_of_char)
qed

lemma bits_explicit:
  "bits b = [bitChar b 7, bitChar b 6, bitChar b 5, bitChar b 4,
             bitChar b 3, bitChar b 2, bitChar b 1, bitChar b 0]"
  by (simp add: bits_def upt_8)

lemma bitset_step:
  "i < 8 \<Longrightarrow>
   (let bit = drop_bit i (of_char char :: 8 word) AND 1
    in if bit = 0 then seq[index * 8 + (7 - i) := CHR ''0'']
       else seq[index * 8 + (7 - i) := CHR ''1''])
   = seq[index * 8 + (7 - i) := bitChar char i]"
  by (simp add: bit_test bitChar_def)

lemma bitsetByte_bits:
  assumes "index * 8 + 8 \<le> length seq"
  shows "bitsetByte index char seq
         = take (index * 8) seq @ bits char @ drop (index * 8 + 8) seq"
proof -
  have "bitsetByte index char seq
        = fold (\<lambda>i seq. seq[index * 8 + (7 - i) := bitChar char i]) [0..<8] seq"
    unfolding bitsetByte_def by (rule fold_cong) (simp_all add: bitset_step)
  also have "\<dots> = take (index * 8) seq @ bits char @ drop (index * 8 + 8) seq"
    using assms
    apply (simp add: upt_8 bits_explicit)
    apply (rule nth_equalityI)
     apply simp
    apply (simp add: nth_list_update nth_append)
    done
  finally show ?thesis .
qed

lemma length_bits: "length (bits b) = 8"
  by (simp add: bits_def)

lemma bitset_outer:
  assumes "(k + length bytes) * 8 \<le> length seq"
  shows "fold (\<lambda>(index, char) seq. bitsetByte index char seq) (enumerate k bytes) seq
         = take (k * 8) seq @ concat (map bits bytes) @ drop ((k + length bytes) * 8) seq"
  using assms
proof (induction bytes arbitrary: k seq)
  case Nil
  then show ?case by simp
next
  case (Cons b bytes)
  let ?seq' = "take (k * 8) seq @ bits b @ drop (k * 8 + 8) seq"
  from Cons.prems have len: "k * 8 + 8 \<le> length seq" "(Suc k + length bytes) * 8 \<le> length seq"
    by simp_all
  then have len': "(Suc k + length bytes) * 8 \<le> length ?seq'"
    by (simp add: length_bits)
  have t: "take (Suc k * 8) ?seq' = take (k * 8) seq @ bits b"
    using len by (simp add: length_bits)
  have d: "drop ((Suc k + length bytes) * 8) ?seq' = drop ((k + length (b # bytes)) * 8) seq"
    using len by (simp add: length_bits ac_simps)
  have "fold (\<lambda>(index, char) seq. bitsetByte index char seq) (enumerate k (b # bytes)) seq
        = fold (\<lambda>(index, char) seq. bitsetByte index char seq) (enumerate (Suc k) bytes) ?seq'"
    using len by (simp add: bitsetByte_bits)
  also have "\<dots> = take (Suc k * 8) ?seq' @ concat (map bits bytes)
                     @ drop ((Suc k + length bytes) * 8) ?seq'"
    by (rule Cons.IH [OF len'])
  also have "\<dots> = (take (k * 8) seq @ bits b) @ concat (map bits bytes)
                     @ drop ((k + length (b # bytes)) * 8) seq"
    by (simp only: t d)
  finally show ?case
    by simp
qed

lemma bitset_concat: "bitset bytes = concat (map bits bytes)"
  using bitset_outer [of 0 bytes "replicate (8 * length bytes) (CHR 0x00)" ]
  by (simp add: bitset_def)

lemma length_concat_bits: "length (concat (map bits bytes)) = 8 * length bytes"
  by (induction bytes) (simp_all add: length_bits)

lemma decodeBits_concat: "decodeBits (concat (map bits bytes)) = bytes"
proof (induction bytes)
  case Nil
  show ?case by (simp add: decodeBits.simps)
next
  case (Cons b bytes)
  have "decodeBits (bits b @ concat (map bits bytes))
        = char_of (numeral2 (bits b)) # decodeBits (concat (map bits bytes))"
    by (subst decodeBits.simps) (simp add: length_bits)
  with Cons.IH show ?case
    by (simp add: numeral2_bits)
qed

text \<open>
  Every write of \<^verbatim>\<open>bitset\<close> is inside the array it made, so the index never panics.
\<close>

lemma bitset_index_in_range:
  "index < length bytes \<Longrightarrow> i < 8 \<Longrightarrow> index * 8 + (7 - i) < 8 * length bytes"
  by arith

text \<open>
  Claim C7. For every byte sequence, \<^verbatim>\<open>bitset\<close> returns exactly eight characters per
  input byte; the characters of the i-th byte are its bits as \<^verbatim>\<open>'0'\<close> and \<^verbatim>\<open>'1'\<close>,
  from bit 7 down to bit 0; and reading every chunk of eight characters back as a binary
  numeral, most significant digit first, gives the input again.
\<close>

theorem bitset_msb_first:
  "length (bitset bytes) = 8 * length bytes
   \<and> bitset bytes = concat (map bits bytes)
   \<and> decodeBits (bitset bytes) = bytes"
  by (simp add: bitset_concat length_concat_bits decodeBits_concat)

section \<open>The invariant of ingestion\<close>

lemma list_all_update:
  "list_all P al \<Longrightarrow> P (k, v) \<Longrightarrow> list_all P (AList.update k v al)"
  by (induction al) auto

lemma list_all_map_of:
  "list_all P al \<Longrightarrow> map_of al k = Some v \<Longrightarrow> P (k, v)"
  by (auto simp: list_all_iff dest: map_of_SomeD)

lemma sound_Some:
  "sound (TreeNode v (Some kvs))
   = (distinct (map fst kvs) \<and> list_all (\<lambda>(k, n). val n = k \<and> sound n) kvs)"
  by (auto simp: sound_def list_all_iff)

lemma sound_None: "\<not> sound (TreeNode v None)"
  by (simp add: sound_def)

lemma populate_parts_sound:
  "sound node \<Longrightarrow> \<exists>node'. populate_parts node parts = Inr node' \<and> sound node' \<and> val node' = val node"
proof (induction parts arbitrary: node)
  case Nil
  then show ?case by simp
next
  case (Cons part parts)
  obtain v c where node: "node = TreeNode v c"
    by (cases node)
  with Cons.prems obtain m where c: "c = Some m"
    by (cases c) (simp_all add: sound_None)
  from Cons.prems node c have m: "distinct (map fst m)" "list_all (\<lambda>(k, n). val n = k \<and> sound n) m"
    by (simp_all add: sound_Some)
  show ?case
  proof (cases "map_of m part")
    case None
    have "sound (TreeNode part (Some []))"
      by (simp add: sound_Some)
    from Cons.IH [OF this] obtain child where
      child: "populate_parts (TreeNode part (Some [])) parts = Inr child" "sound child" "val child = part"
      by auto
    from None have "part \<notin> fst ` set m"
      by (simp add: map_of_eq_None_iff)
    with m child have "sound (TreeNode v (Some (m @ [(part, child)])))"
      by (simp add: sound_Some)
    with node c None child show ?thesis
      by simp
  next
    case (Some node')
    with m have "val node' = part" "sound node'"
      using list_all_map_of [OF m(2) Some] by simp_all
    with Cons.IH [of node'] obtain child where
      child: "populate_parts node' parts = Inr child" "sound child" "val child = part"
      by auto
    with m have "sound (TreeNode v (Some (AList.update part child m)))"
      by (simp add: sound_Some distinct_update list_all_update)
    with node c Some child show ?thesis
      by simp
  qed
qed

lemma populate_sound:
  "sound tree \<Longrightarrow> \<exists>tree'. populate tree keys sep = Inr tree' \<and> sound tree' \<and> val tree' = val tree"
proof (induction keys arbitrary: tree)
  case Nil
  then show ?case by simp
next
  case (Cons key keys)
  from populate_parts_sound [OF Cons.prems, of "Split key sep"] obtain t where
    t: "populate_parts tree (Split key sep) = Inr t" "sound t" "val t = val tree"
    by auto
  with Cons.IH [of t] show ?case
    by auto
qed

lemma ingests_sound:
  "sound tree \<Longrightarrow> \<exists>tree'. ingests tree runs = Inr tree' \<and> sound tree' \<and> val tree' = val tree"
proof (induction runs arbitrary: tree)
  case Nil
  then show ?case by simp
next
  case (Cons run runs)
  obtain keys sep where run: "run = (keys, sep)"
    by (cases run)
  from populate_sound [OF Cons.prems, of keys sep] obtain t where
    t: "populate tree keys sep = Inr t" "sound t" "val t = val tree"
    by auto
  with Cons.IH [of t] run show ?case
    by auto
qed

lemma mainLoop_ingests:
  "mainLoop r sep tree ps
   = ingests tree (concat (map (\<lambda>pattern. case cmdKeys r pattern of
                                            None \<Rightarrow> []
                                          | Some keys \<Rightarrow> [(keys, sep)]) ps))"
  by (induction ps arbitrary: tree) (auto split: option.splits sum.splits)

lemma sound_rootNode: "sound rootNode"
  by (simp add: rootNode_def sound_Some)

text \<open>
  Claim C10. Whatever run of \<^verbatim>\<open>populate\<close> calls starts from the fresh root, labelled
  \<^verbatim>\<open>/\<close>, none of them panics, and in the tree they leave every child stored under a
  key has that key as its label and every node has an allocated children map.
\<close>

theorem ingestion_keeps_labels_and_maps:
  "\<exists>t. ingests rootNode runs = Inr t \<and> labelled t \<and> allocated t \<and> val t = ''/''"
  using ingests_sound [OF sound_rootNode, of runs] by (auto simp: sound_def rootNode_def)

section \<open>Ingesting one key\<close>

lemma val_chain: "val (chain v parts) = v"
  by (cases parts) simp_all

lemma populate_parts_fresh: "populate_parts (TreeNode v (Some [])) parts = Inr (chain v parts)"
  by (induction parts arbitrary: v) simp_all

lemma populate_one: "populate rootNode [key] sep = Inr (chain ''/'' (Split key sep))"
  by (simp add: rootNode_def populate_parts_fresh)

lemma leafPaths_chain: "leafPaths (chain v parts) = [parts]"
  by (induction parts arbitrary: v) (simp_all add: val_chain)

lemma Split_empty_key: "sep \<noteq> [] \<Longrightarrow> Split [] sep = [[]]"
  by (simp add: Split.simps)

lemma Index_self: "Index sep sep = Some 0"
  by (cases sep) simp_all

lemma Split_separator: "sep \<noteq> [] \<Longrightarrow> Split sep sep = [[], []]"
  by (simp add: Split.simps [of sep] Index_self Split_empty_key)

lemma Split_empty_empty: "Split [] [] = []"
  by (simp add: Split.simps explode.simps)

lemma populate_empty_key:
  assumes "sep \<noteq> []" and "children t = Some m"
  shows "populate t [[]] sep
         = Inr (if map_of m [] = None
                then TreeNode (val t) (Some (m @ [([], TreeNode [] (Some []))]))
                else t)"
proof (cases "map_of m []")
  case None
  with assms show ?thesis
    by (simp add: Split_empty_key)
next
  case (Some n)
  then have "AList.update [] n m = m"
    by (rule update_triv)
  moreover from assms(2) have "t = TreeNode (val t) (Some m)"
    by (cases t) simp
  ultimately show ?thesis
    using assms Some by (simp add: Split_empty_key)
qed

lemma populate_nothing: "populate t [[]] [] = Inr t"
  by (simp add: Split_empty_empty)

lemma filter_keeps_all: "(length (filter P xs) = length xs) = (\<forall>x\<in>set xs. P x)"
proof (induction xs)
  case Nil
  show ?case by simp
next
  case (Cons x xs)
  have le: "length (filter P xs) \<le> length xs"
    by (rule length_filter_le)
  show ?case
  proof (cases "P x")
    case True
    with Cons show ?thesis by simp
  next
    case False
    from le have "length (filter P xs) \<noteq> Suc (length xs)"
      by arith
    with False show ?thesis by simp
  qed
qed

text \<open>
  Claim C2, as stated, fails: with the separator \<^verbatim>\<open>":"\<close> the empty key splits into
  one empty segment, and ingesting it into the fresh root leaves a child there.
\<close>

theorem empty_key_counterexample: "populate rootNode [[]] '':'' \<noteq> Inr rootNode"
proof -
  have "populate rootNode [[]] '':'' = Inr (chain ''/'' [[]])"
    by (simp add: populate_one Split_empty_key del: populate.simps)
  then show ?thesis
    by (simp add: rootNode_def)
qed

text \<open>
  Claim C2, amended. With a non-empty separator the empty key splits into one empty
  segment, and ingesting it stores a node with the empty label under the root, unless
  the root has that child already (then the tree stays as it is); a key equal to the
  separator splits into two empty segments, and ingesting it into the fresh root
  builds the branch of two nodes with the empty label. Only with the empty separator
  does the empty key split into no segment, and then ingesting it changes nothing.
\<close>

theorem empty_key_ingestion:
  "(sep \<noteq> [] \<longrightarrow>
      Split [] sep = [[]] \<and> populate rootNode [[]] sep = Inr (chain ''/'' [[]]))
   \<and> (sep \<noteq> [] \<and> children t = Some m \<longrightarrow>
      populate t [[]] sep
      = Inr (if map_of m [] = None
             then TreeNode (val t) (Some (m @ [([], TreeNode [] (Some []))]))
             else t))
   \<and> (sep \<noteq> [] \<longrightarrow>
      Split sep sep = [[], []] \<and> populate rootNode [sep] sep = Inr (chain ''/'' [[], []]))
   \<and> Split [] [] = []
   \<and> populate t [[]] [] = Inr t"
  using populate_empty_key [of sep t m]
  by (simp add: populate_one populate_nothing Split_empty_key Split_separator
      Split_empty_empty del: populate.simps)

theorem empty_key_ingestion_witness:
  "Split [] '':'' = [[]]
   \<and> populate rootNode [[]] '':'' = Inr (TreeNode ''/'' (Some [([], TreeNode [] (Some []))]))
   \<and> populate (chain ''/'' [[]]) [[]] '':'' = Inr (chain ''/'' [[]])
   \<and> Split '':'' '':'' = [[], []]
   \<and> populate rootNode ['':''] '':''
       = Inr (TreeNode ''/'' (Some [([], TreeNode [] (Some [([], TreeNode [] (Some []))]))]))"
  using empty_key_ingestion [of "'':''" rootNode "[]"]
    empty_key_ingestion [of "'':''" "chain ''/'' [[]]" "[([], TreeNode [] (Some []))]"]
  by (simp add: rootNode_def del: populate.simps)

text \<open>
  Claim C3, as stated, fails: the key \<^verbatim>\<open>a::b\<close> contains the separator \<^verbatim>\<open>":"\<close> and has
  two non-empty segments, and its leaf is at depth 3.
\<close>

theorem separator_counterexample:
  "populate rootNode [''a::b''] '':'' = Inr (chain ''/'' [''a'', [], ''b''])
   \<and> leafDepths (chain ''/'' [''a'', [], ''b'']) = [3]
   \<and> length (segments ''a::b'' '':'') = 2"
proof -
  have "Split ''a::b'' '':'' = [''a'', [], ''b'']"
    by (simp add: Split.simps)
  then show ?thesis
    by (simp add: populate_one leafDepths_def leafPaths_chain segments_def del: populate.simps)
qed

text \<open>
  Claim C3, amended. Ingesting one key into the fresh root builds one branch, whose
  labels are the segments \<^verbatim>\<open>strings.Split\<close> returns, the empty ones too: the depth of
  the leaf is the number of all segments. It is the number of non-empty segments exactly
  when no segment is empty.
\<close>

theorem leaf_depth_counts_all_segments:
  "populate rootNode [key] sep = Inr (chain ''/'' (Split key sep))
   \<and> leafPaths (chain ''/'' (Split key sep)) = [Split key sep]
   \<and> leafDepths (chain ''/'' (Split key sep)) = [length (Split key sep)]
   \<and> (length (segments key sep) = length (Split key sep)) = ([] \<notin> set (Split key sep))"
  by (auto simp: populate_one leafPaths_chain leafDepths_def segments_def filter_keeps_all
      simp del: populate.simps)

section \<open>The key of a leaf\<close>

text \<open>
  Claim C1 at the separator \<^verbatim>\<open>"/"\<close>. The key \<^verbatim>\<open>a/b\<close> is ingested as the branch of
  \<^verbatim>\<open>a\<close> and \<^verbatim>\<open>b\<close>, whose labels joined with the separator are the key again, and
  \<^verbatim>\<open>plot\<close> asks the store for \<^verbatim>\<open>a:b\<close>; so does the whole program when \<^verbatim>\<open>--sep=/\<close>
  is given and the store holds that one key. With the separator \<^verbatim>\<open>":"\<close> itself, the
  key \<^verbatim>\<open>:a\<close> is ingested as the branch of the empty label and \<^verbatim>\<open>a\<close>, and \<^verbatim>\<open>plot\<close>
  asks for \<^verbatim>\<open>a\<close>: it takes the empty key for the sign of the first level.
\<close>

theorem plot_joins_with_colon:
  "populate rootNode [''a/b''] ''/'' = Inr (chain ''/'' [''a'', ''b''])
   \<and> map (\<lambda>p. join p ''/'') (leafPaths (chain ''/'' [''a'', ''b''])) = [''a/b'']
   \<and> queried (plot (plotNode g lib) (chain ''/'' [''a'', ''b'']) [] []) = [''a:b'']
   \<and> map_sum id queried
         (main (g\<lparr>keySep := ''/'', patterns := [''*''],
                  redisClient := (redisClient g)\<lparr>cmdKeys := (\<lambda>pattern. Some [''a/b''])\<rparr>\<rparr>)
            lib)
       = Inr [''a:b'']
   \<and> populate rootNode ['':a''] '':'' = Inr (chain ''/'' [[], ''a''])
   \<and> map (\<lambda>p. join p '':'') (leafPaths (chain ''/'' [[], ''a''])) = ['':a'']
   \<and> queried (plot (plotNode g lib) (chain ''/'' [[], ''a'']) [] []) = [''a'']"
proof -
  have "Split ''a/b'' ''/'' = [''a'', ''b'']" and "Split '':a'' '':'' = [[], ''a'']"
    by (simp_all add: Split.simps)
  then have ingested: "populate rootNode [''a/b''] ''/'' = Inr (chain ''/'' [''a'', ''b''])"
    "populate rootNode ['':a''] '':'' = Inr (chain ''/'' [[], ''a''])"
    by (simp_all add: populate_one del: populate.simps)
  have asked: "queried (plot (plotNode g' lib) (chain ''/'' [''a'', ''b'']) [] []) = [''a:b'']"
    "queried (plot (plotNode g' lib) (chain ''/'' [[], ''a'']) [] []) = [''a'']" for g'
    by (simp_all add: plot_plotFrom mapKeys_def mapIndex_def plotNode_def len_def queried_def
        Let_def split: prod.splits)
  have "map_sum id queried
         (main (g\<lparr>keySep := ''/'', patterns := [''*''],
                  redisClient := (redisClient g)\<lparr>cmdKeys := (\<lambda>pattern. Some [''a/b''])\<rparr>\<rparr>)
            lib)
       = Inr [''a:b'']"
    by (simp add: main_def ingested asked del: populate.simps chain.simps)
  with ingested asked show ?thesis
    by (simp add: leafPaths_chain del: populate.simps)
qed

section \<open>The value formatter\<close>

text \<open>
  Claim C9. \<^verbatim>\<open>prettyPrint\<close> dispatches on the kind of the value. A field map or a
  sequence of more than one element, with wrapping on, is what \<^verbatim>\<open>json.MarshalIndent\<close>
  makes of it, with the prefix (followed by \<^verbatim>\<open>|\<close> unless the node is the last sibling)
  before every line and three spaces for each level; with at most one element, or with
  wrapping off, it is what \<^verbatim>\<open>json.Marshal\<close> makes of it, the compact form; and a scalar
  the heuristic does not class as binary is returned as it is.
\<close>

theorem prettyPrint_dispatch:
  "(w \<and> 1 < length m \<longrightarrow>
      prettyPrint lib (FieldMap m) pfx w isLast
      = jsonMarshalIndent lib (FieldMap m) (if isLast then pfx else pfx @ ''|'') ''   '')
   \<and> (w \<and> 1 < length xs \<longrightarrow>
      prettyPrint lib (Sequence xs) pfx w isLast
      = jsonMarshalIndent lib (Sequence xs) (if isLast then pfx else pfx @ ''|'') ''   '')
   \<and> (\<not> w \<or> length m \<le> 1 \<longrightarrow>
      prettyPrint lib (FieldMap m) pfx w isLast = jsonMarshal lib (FieldMap m))
   \<and> (\<not> w \<or> length xs \<le> 1 \<longrightarrow>
      prettyPrint lib (Sequence xs) pfx w isLast = jsonMarshal lib (Sequence xs))
   \<and> (\<not> isBinary s \<longrightarrow> prettyPrint lib (Scalar s) pfx w isLast = s)"
  by (auto simp: prettyPrint_def)

theorem prettyPrint_dispatch_witness:
  "prettyPrint \<lparr>ansiColor = (\<lambda>s style. s), jsonMarshal = (\<lambda>v. ''compact''),
                 jsonMarshalIndent = (\<lambda>v p i. p @ i)\<rparr>
     (FieldMap [(''a'', ''1''), (''b'', ''2'')]) ''  '' True False = ''  |   ''
   \<and> prettyPrint \<lparr>ansiColor = (\<lambda>s style. s), jsonMarshal = (\<lambda>v. ''compact''),
                   jsonMarshalIndent = (\<lambda>v p i. p @ i)\<rparr>
       (Sequence [''x'', ''y'']) ''  '' True True = ''     ''
   \<and> prettyPrint \<lparr>ansiColor = (\<lambda>s style. s), jsonMarshal = (\<lambda>v. ''compact''),
                   jsonMarshalIndent = (\<lambda>v p i. p @ i)\<rparr>
       (FieldMap [(''a'', ''1'')]) ''  '' True True = ''compact''
   \<and> prettyPrint \<lparr>ansiColor = (\<lambda>s style. s), jsonMarshal = (\<lambda>v. ''compact''),
                   jsonMarshalIndent = (\<lambda>v p i. p @ i)\<rparr>
       (Sequence [''x'', ''y'']) ''  '' False False = ''compact''
   \<and> prettyPrint \<lparr>ansiColor = (\<lambda>s style. s), jsonMarshal = (\<lambda>v. ''compact''),
                   jsonMarshalIndent = (\<lambda>v p i. p @ i)\<rparr>
       (Scalar ''hello'') ''  '' True False = ''hello''"
proof -
  let ?lib = "\<lparr>ansiColor = (\<lambda>s style. s), jsonMarshal = (\<lambda>v. ''compact''),
               jsonMarshalIndent = (\<lambda>v p i. p @ i)\<rparr>"
  have printable: "\<not> isBinary ''hello''"
    by code_simp
  show ?thesis
    using printable
      prettyPrint_dispatch
        [of True "[(''a'', ''1''), (''b'', ''2'')]" ?lib "''  ''" False "[''x'', ''y'']" "''hello''"]
      prettyPrint_dispatch
        [of True "[(''a'', ''1'')]" ?lib "''  ''" True "[''x'', ''y'']" "''hello''"]
      prettyPrint_dispatch
        [of False "[(''a'', ''1'')]" ?lib "''  ''" False "[''x'', ''y'']" "''hello''"]
    by simp
qed

section \<open>The order of the siblings and the last one\<close>












lemma populate_example:
  "populate rootNode [''b:x'', ''a'', ''b:a''] '':'' = Inr exampleTree"
  by (simp add: Split.simps rootNode_def exampleTree_def)





section \<open>The glyph and the leading\<close>



section \<open>The order of ingestion\<close>

lemma hasPath_leaf: "hasPath (TreeNode v (Some [])) q = (q = [])"
  by (cases q) simp_all

lemma map_of_snoc:
  "map_of m p = None \<Longrightarrow>
   map_of (m @ [(p, n)]) k = (if k = p then Some n else map_of m k)"
  by (auto simp: map_add_def split: option.splits)

lemma populate_parts_paths:
  "sound t \<Longrightarrow> populate_parts t ps = Inr t' \<Longrightarrow> hasPath t' q = (hasPath t q \<or> prefix q ps)"
proof (induction ps arbitrary: t t' q)
  case Nil
  then show ?case by (cases q) auto
next
  case (Cons p ps)
  obtain v c where t: "t = TreeNode v c"
    by (cases t)
  with Cons.prems(1) obtain m where c: "c = Some m"
    by (cases c) (simp_all add: sound_None)
  from Cons.prems(1) t c have m: "list_all (\<lambda>(k, n). val n = k \<and> sound n) m"
    by (simp add: sound_Some)
  show ?case
  proof (cases q)
    case Nil
    then show ?thesis by simp
  next
    case q: (Cons k q')
    show ?thesis
    proof (cases "map_of m p")
      case None
      have fresh: "sound (TreeNode p (Some []))"
        by (simp add: sound_Some)
      from populate_parts_sound [OF fresh, of ps] obtain child where
        child: "populate_parts (TreeNode p (Some [])) ps = Inr child"
        by blast
      with Cons.prems(2) t c None have t': "t' = TreeNode v (Some (m @ [(p, child)]))"
        by simp
      from Cons.IH [OF fresh child, of q'] have "hasPath child q' = prefix q' ps"
        by (auto simp: hasPath_leaf)
      with t t' c q None show ?thesis
        by (simp add: map_of_snoc del: map_of_append)
    next
      case (Some n)
      from list_all_map_of [OF m Some] have n: "sound n"
        by simp
      from populate_parts_sound [OF n, of ps] obtain child where
        child: "populate_parts n ps = Inr child"
        by blast
      with Cons.prems(2) t c Some have t': "t' = TreeNode v (Some (AList.update p child m))"
        by simp
      from Cons.IH [OF n child, of q'] t t' c q Some show ?thesis
        by (simp add: update_conv')
    qed
  qed
qed

lemma populate_paths:
  "sound t \<Longrightarrow> populate t keys sep = Inr t' \<Longrightarrow>
   hasPath t' q = (hasPath t q \<or> (\<exists>key\<in>set keys. prefix q (Split key sep)))"
proof (induction keys arbitrary: t)
  case Nil
  then show ?case by simp
next
  case (Cons key keys)
  from populate_parts_sound [OF Cons.prems(1), of "Split key sep"] obtain t1 where
    t1: "populate_parts t (Split key sep) = Inr t1" "sound t1"
    by blast
  with Cons.prems(2) have "populate t1 keys sep = Inr t'"
    by simp
  from Cons.IH [OF t1(2) this] populate_parts_paths [OF Cons.prems(1) t1(1), of q]
  show ?case
    by auto
qed

lemma same_paths_treeEq:
  "sound t1 \<Longrightarrow> sound t2 \<Longrightarrow> val t1 = val t2 \<Longrightarrow> (\<And>q. hasPath t1 q = hasPath t2 q) \<Longrightarrow>
   treeEq t1 t2"
proof (induction t1 arbitrary: t2 rule: measure_induct_rule [where f = size])
  case (less t1)
  obtain v1 c1 where t1: "t1 = TreeNode v1 c1"
    by (cases t1)
  with less.prems(1) obtain m1 where c1: "c1 = Some m1"
    by (cases c1) (simp_all add: sound_None)
  obtain v2 c2 where t2: "t2 = TreeNode v2 c2"
    by (cases t2)
  with less.prems(2) obtain m2 where c2: "c2 = Some m2"
    by (cases c2) (simp_all add: sound_None)
  from less.prems(1) t1 c1 have m1: "distinct (map fst m1)"
      "list_all (\<lambda>(k, n). val n = k \<and> sound n) m1"
    by (simp_all add: sound_Some)
  from less.prems(2) t2 c2 have m2: "distinct (map fst m2)"
      "list_all (\<lambda>(k, n). val n = k \<and> sound n) m2"
    by (simp_all add: sound_Some)
  have step: "hasPath t1 (k # q) = hasPath t2 (k # q)" for k q
    by (rule less.prems(4))
  have left: "case map_of m2 k of None \<Rightarrow> False | Some n' \<Rightarrow> treeEq n n'"
    if kn: "(k, n) \<in> set m1" for k n
  proof -
    from m1(1) kn have look1: "map_of m1 k = Some n"
      by simp
    with step [of k "[]"] t1 t2 c1 c2 obtain n' where look2: "map_of m2 k = Some n'"
      by (auto split: option.splits)
    from list_all_map_of [OF m1(2) look1] list_all_map_of [OF m2(2) look2]
    have sound: "sound n" "sound n'" and label: "val n = val n'"
      by simp_all
    from kn have "size n < size t1"
      unfolding t1 c1 by (rule size_child)
    moreover have "hasPath n q = hasPath n' q" for q
      using step [of k q] t1 t2 c1 c2 look1 look2 by simp
    ultimately have "treeEq n n'"
      using less.IH sound label by blast
    with look2 show ?thesis
      by simp
  qed
  have right: "map_of m1 k \<noteq> None" if kn: "(k, n') \<in> set m2" for k n'
  proof -
    from m2(1) kn have "map_of m2 k = Some n'"
      by simp
    with step [of k "[]"] t1 t2 c1 c2 show ?thesis
      by (auto split: option.splits)
  qed
  from left right less.prems(3) t1 t2 c1 c2 show ?case
    by (auto simp: list_all_iff)
qed

lemma populate_parts_present:
  "hasPath t ps \<Longrightarrow> populate_parts t ps = Inr t"
proof (induction ps arbitrary: t)
  case Nil
  show ?case by simp
next
  case (Cons p ps)
  from Cons.prems obtain m n where
    look: "children t = Some m" "map_of m p = Some n" "hasPath n ps"
    by (auto split: option.splits)
  from look(2) have "AList.update p n m = m"
    by (rule update_triv)
  moreover from look(1) have "t = TreeNode (val t) (Some m)"
    by (cases t) simp
  ultimately show ?case
    using look Cons.IH [OF look(3)] by simp
qed

text \<open>
  Claim C4. Two lists of keys that are permutations of each other, ingested into the
  fresh root, give trees that are equal under the comparison by labels; and ingesting
  once more a key that was among those ingested changes nothing.
\<close>

theorem ingestion_order_irrelevant:
  "(mset keys' = mset keys \<longrightarrow>
      (\<exists>t t'. populate rootNode keys sep = Inr t \<and> populate rootNode keys' sep = Inr t'
         \<and> treeEq t t'))
   \<and> (key \<in> set keys \<longrightarrow>
      (\<exists>t. populate rootNode keys sep = Inr t \<and> populate t [key] sep = Inr t))"
proof (intro conjI impI)
  assume perm: "mset keys' = mset keys"
  from populate_sound [OF sound_rootNode, of keys sep] obtain t where
    t: "populate rootNode keys sep = Inr t" "sound t" "val t = val rootNode"
    by blast
  from populate_sound [OF sound_rootNode, of keys' sep] obtain t' where
    t': "populate rootNode keys' sep = Inr t'" "sound t'" "val t' = val rootNode"
    by blast
  from perm have "set keys' = set keys"
    by (rule mset_eq_setD)
  then have "hasPath t q = hasPath t' q" for q
    using populate_paths [OF sound_rootNode t(1), of q]
      populate_paths [OF sound_rootNode t'(1), of q]
    by simp
  with t t' have "treeEq t t'"
    by (intro same_paths_treeEq) simp_all
  with t(1) t'(1)
  show "\<exists>t t'. populate rootNode keys sep = Inr t \<and> populate rootNode keys' sep = Inr t'
      \<and> treeEq t t'"
    by blast
next
  assume key: "key \<in> set keys"
  from populate_sound [OF sound_rootNode, of keys sep] obtain t where
    t: "populate rootNode keys sep = Inr t"
    by blast
  from key populate_paths [OF sound_rootNode t, of "Split key sep"]
  have "hasPath t (Split key sep)"
    by auto
  then have "populate t [key] sep = Inr t"
    by (simp add: populate_parts_present)
  with t show "\<exists>t. populate rootNode keys sep = Inr t \<and> populate t [key] sep = Inr t"
    by blast
qed

theorem ingestion_order_irrelevant_witness:
  "populate rootNode [''b:x'', ''a'', ''b:a''] '':'' = Inr exampleTree
   \<and> populate rootNode [''a'', ''b:a'', ''b:x''] '':'' = Inr exampleTreeSorted
   \<and> exampleTree \<noteq> exampleTreeSorted
   \<and> treeEq exampleTree exampleTreeSorted
   \<and> populate exampleTree [''a''] '':'' = Inr exampleTree"
proof -
  have sorted: "populate rootNode [''a'', ''b:a'', ''b:x''] '':'' = Inr exampleTreeSorted"
    by (simp add: Split.simps rootNode_def exampleTreeSorted_def)
  have perm: "mset [''a'', ''b:a'', ''b:x''] = mset [''b:x'', ''a'', ''b:a'']"
    by simp
  have member: "''a'' \<in> set [''b:x'', ''a'', ''b:a'']"
    by simp
  from ingestion_order_irrelevant
    [of "[''a'', ''b:a'', ''b:x'']" "[''b:x'', ''a'', ''b:a'']" "'':''" "''a''"] perm member
  have "treeEq exampleTree exampleTreeSorted"
    and "populate exampleTree [''a''] '':'' = Inr exampleTree"
    by (simp_all only: populate_example sorted) auto
  moreover have "exampleTree \<noteq> exampleTreeSorted"
    by (simp add: exampleTree_def exampleTreeSorted_def)
  ultimately show ?thesis
    using populate_example sorted by blast
qed

section \<open>The binary heuristic\<close>

subsection \<open>Rounding to binary64\<close>

lemma roundHalfEven_of_int: "roundHalfEven (of_int n) = n"
  by (simp add: roundHalfEven_def)

lemma roundHalfEven_floor: "\<lfloor>x\<rfloor> \<le> roundHalfEven x \<and> roundHalfEven x \<le> \<lfloor>x\<rfloor> + 1"
  by (simp add: roundHalfEven_def Let_def)

lemma roundHalfEven_mono:
  assumes "x \<le> y"
  shows "roundHalfEven x \<le> roundHalfEven y"
proof (cases "\<lfloor>x\<rfloor> < \<lfloor>y\<rfloor>")
  case True
  with roundHalfEven_floor [of x] roundHalfEven_floor [of y] show ?thesis
    by linarith
next
  case False
  with assms have same: "\<lfloor>x\<rfloor> = \<lfloor>y\<rfloor>"
    using floor_mono [of x y] by linarith
  with assms have "x - of_int \<lfloor>x\<rfloor> \<le> y - of_int \<lfloor>y\<rfloor>"
    by simp
  with same show ?thesis
    by (auto simp: roundHalfEven_def Let_def)
qed

lemma bitlen_pos: "0 < n \<Longrightarrow> 0 < bitlen n"
  using bitlen_bounds [of n] by (cases "0 < bitlen n") auto

lemma binade_bounds:
  assumes "0 < x"
  shows "2 powi binade x \<le> x \<and> x < 2 powi (binade x + 1)"
proof (cases "1 \<le> x")
  case True
  let ?n = "\<lfloor>x\<rfloor>"
  let ?b = "bitlen ?n"
  from True have n: "0 < ?n"
    by simp
  from bitlen_bounds [OF n] have
    lo: "2 ^ nat (?b - 1) \<le> ?n" and hi: "?n < 2 ^ nat ?b"
    by simp_all
  from bitlen_pos [OF n] have b: "0 < ?b" .
  from lo have "(of_int (2 ^ nat (?b - 1)) :: rat) \<le> of_int ?n"
    by (simp only: of_int_le_iff)
  then have "(2 :: rat) ^ nat (?b - 1) \<le> x"
    by (simp add: le_floor_iff)
  moreover from hi have "?n + 1 \<le> 2 ^ nat ?b"
    by simp
  then have "(of_int (?n + 1) :: rat) \<le> of_int (2 ^ nat ?b)"
    by (simp only: of_int_le_iff)
  then have "x < (2 :: rat) ^ nat ?b"
    using floor_correct [of x] by simp
  ultimately show ?thesis
    using True b by (simp add: binade_def power_int_def)
next
  case False
  let ?m = "\<lceil>1 / x\<rceil>"
  let ?k = "bitlen (?m - 1)"
  from False assms have y: "1 < 1 / x"
    by simp
  then have m: "0 < ?m - 1"
    by (simp add: less_ceiling_iff)
  from bitlen_bounds [OF m] have
    lo: "2 ^ nat (?k - 1) \<le> ?m - 1" and hi: "?m - 1 < 2 ^ nat ?k"
    by simp_all
  from bitlen_pos [OF m] have k: "0 < ?k" .
  from hi have "?m \<le> 2 ^ nat ?k"
    by simp
  then have "1 / x \<le> of_int (2 ^ nat ?k)"
    by (simp only: ceiling_le_iff)
  then have "1 / x \<le> (2 :: rat) ^ nat ?k"
    by simp
  with assms have low: "1 / (2 :: rat) ^ nat ?k \<le> x"
    by (simp add: field_simps)
  from lo have "(of_int (2 ^ nat (?k - 1)) :: rat) \<le> of_int (?m - 1)"
    by (simp only: of_int_le_iff)
  then have "(2 :: rat) ^ nat (?k - 1) < 1 / x"
    using ceiling_correct [of "1 / x"] by simp
  with assms have high: "x < 1 / (2 :: rat) ^ nat (?k - 1)"
    by (simp add: field_simps)
  from k have "(2 :: rat) powi (- ?k) = 1 / 2 ^ nat ?k"
    by (simp add: power_int_def field_simps)
  moreover from k have "(2 :: rat) powi (- ?k + 1) = 1 / 2 ^ nat (?k - 1)"
    by (cases "?k = 1") (simp_all add: power_int_def field_simps nat_diff_distrib)
  ultimately show ?thesis
    using False low high by (simp add: binade_def)
qed

lemma binade_mono:
  assumes "0 < x" and "x \<le> y"
  shows "binade x \<le> binade y"
proof (rule ccontr)
  assume "\<not> binade x \<le> binade y"
  then have "binade y + 1 \<le> binade x"
    by simp
  then have "(2 :: rat) powi (binade y + 1) \<le> 2 powi binade x"
    by (intro power_int_increasing) simp_all
  moreover from assms have "0 < y"
    by simp
  ultimately show False
    using binade_bounds [of x] binade_bounds [of y] assms by linarith
qed

lemma ulp_times: "(2 :: rat) powi (e - 52) * 2 ^ 52 = 2 powi e"
  using power_int_add [of "2 :: rat" "e - 52" 52] by simp

lemma ulp_times_next: "(2 :: rat) powi (e - 52) * 2 ^ 53 = 2 powi (e + 1)"
  using power_int_add [of "2 :: rat" "e - 52" 53] by (simp add: add.commute)

lemma ulp_pos: "0 < (2 :: rat) powi (e - 52)"
  by simp

lemma float64_range:
  assumes "0 < x"
  shows "2 powi binade x \<le> float64 x \<and> float64 x \<le> 2 powi (binade x + 1)"
proof -
  let ?e = "binade x"
  let ?u = "(2 :: rat) powi (?e - 52)"
  have u: "0 < ?u"
    by simp
  from binade_bounds [OF assms] have "?u * 2 ^ 52 \<le> x" "x < ?u * 2 ^ 53"
    using ulp_times [of ?e] ulp_times_next [of ?e] by simp_all
  with u have "of_int (2 ^ 52) \<le> x / ?u" "x / ?u \<le> of_int (2 ^ 53)"
    by (simp_all add: field_simps)
  then have "roundHalfEven (of_int (2 ^ 52)) \<le> roundHalfEven (x / ?u)"
    "roundHalfEven (x / ?u) \<le> roundHalfEven (of_int (2 ^ 53))"
    by (simp_all only: roundHalfEven_mono)
  then have "2 ^ 52 \<le> roundHalfEven (x / ?u)" "roundHalfEven (x / ?u) \<le> 2 ^ 53"
    by (simp_all only: roundHalfEven_of_int)
  then have "(of_int (2 ^ 52) :: rat) \<le> of_int (roundHalfEven (x / ?u))"
    "(of_int (roundHalfEven (x / ?u)) :: rat) \<le> of_int (2 ^ 53)"
    by (simp_all only: of_int_le_iff)
  with u have "2 ^ 52 * ?u \<le> of_int (roundHalfEven (x / ?u)) * ?u"
    "of_int (roundHalfEven (x / ?u)) * ?u \<le> 2 ^ 53 * ?u"
    by simp_all
  moreover have "2 ^ 52 * ?u = 2 powi ?e" "2 ^ 53 * ?u = 2 powi (?e + 1)"
    using ulp_times [of ?e] ulp_times_next [of ?e] by (simp_all only: mult.commute)
  moreover from assms have "float64 x = of_int (roundHalfEven (x / ?u)) * ?u"
    by (simp add: float64_def Let_def)
  ultimately show ?thesis
    by (simp only:)
qed

lemma float64_mono:
  assumes "x \<le> y"
  shows "float64 x \<le> float64 y"
proof (cases "0 < x")
  case False
  then have "float64 x = 0"
    by (simp add: float64_def)
  moreover have "0 \<le> float64 y"
  proof (cases "0 < y")
    case True
    from float64_range [OF True] have "2 powi binade y \<le> float64 y"
      by simp
    moreover have "0 < (2 :: rat) powi binade y"
      by simp
    ultimately show ?thesis
      by linarith
  next
    case False
    then show ?thesis
      by (simp add: float64_def)
  qed
  ultimately show ?thesis
    by simp
next
  case True
  with assms have y: "0 < y"
    by simp
  from binade_mono [OF True assms] have "binade x = binade y \<or> binade x + 1 \<le> binade y"
    by linarith
  then show ?thesis
  proof
    assume same: "binade x = binade y"
    let ?u = "(2 :: rat) powi (binade y - 52)"
    from assms have "x / ?u \<le> y / ?u"
      by (simp add: divide_right_mono)
    then have "roundHalfEven (x / ?u) \<le> roundHalfEven (y / ?u)"
      by (rule roundHalfEven_mono)
    then have "(of_int (roundHalfEven (x / ?u)) :: rat) \<le> of_int (roundHalfEven (y / ?u))"
      by (simp only: of_int_le_iff)
    then have "of_int (roundHalfEven (x / ?u)) * ?u \<le> of_int (roundHalfEven (y / ?u)) * ?u"
      by (simp add: mult_right_mono)
    with True y same show ?thesis
      by (simp add: float64_def Let_def)
  next
    assume "binade x + 1 \<le> binade y"
    then have "(2 :: rat) powi (binade x + 1) \<le> 2 powi binade y"
      by (intro power_int_increasing) simp_all
    with float64_range [OF True] float64_range [OF y] show ?thesis
      by linarith
  qed
qed

lemma float64_of_nat:
  assumes "n < 2 ^ 53"
  shows "float64 (of_nat n) = of_nat n"
proof (cases "n = 0")
  case True
  then show ?thesis
    by (simp add: float64_def)
next
  case False
  let ?x = "of_nat n :: rat"
  let ?e = "binade ?x"
  from False have x: "0 < ?x" "1 \<le> ?x"
    by simp_all
  from binade_mono [of 1 ?x] x have "binade 1 \<le> ?e"
    by simp
  moreover have "binade 1 = 0"
    by code_simp
  ultimately have lo: "0 \<le> ?e"
    by simp
  from assms have "?x < 2 ^ 53"
    by (metis of_nat_less_iff of_nat_numeral of_nat_power)
  with binade_bounds [OF x(1)] have "(2 :: rat) powi ?e < 2 powi 53"
    by simp
  then have hi: "?e < 53"
    by (rule power_int_le_imp_less_exp [rotated]) simp_all
  define k where "k = nat (52 - ?e)"
  from lo hi have e: "?e - 52 = - int k"
    by (simp add: k_def)
  have u: "(2 :: rat) powi (?e - 52) = 1 / 2 ^ k"
    unfolding e by (simp add: power_int_minus field_simps)
  have "?x / (1 / 2 ^ k) = of_int (int n * 2 ^ k)"
    by simp
  then have "roundHalfEven (?x / (1 / 2 ^ k)) = int n * 2 ^ k"
    by (simp only: roundHalfEven_of_int)
  with x(1) u show ?thesis
    by (simp add: float64_def Let_def)
qed


subsection \<open>The comparison with 0.3\<close>

text \<open>
  The double nearest to 0.3 is \<open>5404319552844595 / 2\<^sup>5\<^sup>4\<close>, a little below 0.3, and
  every quotient up to the midpoint between it and the double before it rounds to that
  double before it. A quotient of two counts below 0.3 is below it by at least one
  part in ten times the length, so up to a length of \<open>2\<^sup>5\<^sup>1\<close> it is below that midpoint,
  and the comparison in \<^verbatim>\<open>float64\<close> decides as the comparison of the exact fractions
  does.
\<close>

lemma float64_threshold: "float64 (3 / 10) = 5404319552844595 / 2 ^ 54"
  by code_simp

lemma float64_below_threshold:
  "float64 (10808639105689189 / 2 ^ 55) = 5404319552844594 / 2 ^ 54"
  by code_simp

lemma float64_ratio_test:
  assumes "0 < b" and "b \<le> 2 ^ 51" and "a \<le> b"
  shows "(float64 (3 / 10) \<le> float64 (float64 (of_nat a) / float64 (of_nat b)))
         = (3 * b \<le> 10 * a)"
proof -
  from assms have "a < 2 ^ 53" "b < 2 ^ 53"
    by simp_all
  then have exact: "float64 (of_nat a) = of_nat a" "float64 (of_nat b) = of_nat b"
    by (simp_all add: float64_of_nat)
  let ?q = "of_nat a / of_nat b :: rat"
  show ?thesis
  proof (cases "3 * b \<le> 10 * a")
    case True
    then have "(of_nat (3 * b) :: rat) \<le> of_nat (10 * a)"
      by (simp only: of_nat_le_iff)
    with assms(1) have "3 / 10 \<le> ?q"
      by (simp add: field_simps)
    then have "float64 (3 / 10) \<le> float64 ?q"
      by (rule float64_mono)
    with True exact show ?thesis
      by simp
  next
    case False
    with assms(2) have "a * 36028797018963968 \<le> 10808639105689189 * b"
      by simp
    then have "(of_nat (a * 36028797018963968) :: rat) \<le> of_nat (10808639105689189 * b)"
      by (simp only: of_nat_le_iff)
    with assms(1) have "?q \<le> 10808639105689189 / 2 ^ 55"
      by (simp add: field_simps)
    then have "float64 ?q \<le> float64 (10808639105689189 / 2 ^ 55)"
      by (rule float64_mono)
    then have "float64 ?q \<le> 5404319552844594 / 2 ^ 54"
      by (simp only: float64_below_threshold)
    moreover have "(5404319552844594 / 2 ^ 54 :: rat) < 5404319552844595 / 2 ^ 54"
      by simp
    ultimately have "float64 ?q < float64 (3 / 10)"
      unfolding float64_threshold by (rule le_less_trans)
    with False exact show ?thesis
      by simp
  qed
qed

lemma count_loop:
  "fold (\<lambda>b invisible. if visible b then invisible else invisible + 1) bytes k
   = k + invisibleCount bytes"
  by (induction bytes arbitrary: k) (simp_all add: invisibleCount_def)

lemma invisibleCount_le: "invisibleCount bytes \<le> length bytes"
  by (simp add: invisibleCount_def)

lemma isBinary_ratio:
  assumes "bytes \<noteq> []" and "length bytes \<le> 2 ^ 51"
  shows "isBinary bytes = (3 * length bytes \<le> 10 * invisibleCount bytes)"
proof -
  from assms(1) have "0 < length bytes"
    by simp
  from float64_ratio_test [OF this assms(2) invisibleCount_le] assms(1) show ?thesis
    by (simp add: isBinary_def count_loop)
qed

lemma isBinary_nothing_invisible:
  assumes "invisibleCount bytes = 0"
  shows "\<not> isBinary bytes"
proof -
  have "float64 0 = 0"
    by (simp add: float64_def)
  with assms show ?thesis
    by (simp add: isBinary_def count_loop float64_threshold)
qed

text \<open>
  What \<^verbatim>\<open>isBinary\<close> computes. It is false for the empty input and for an input of
  printable ASCII bytes only. It counts the bytes that are neither printable ASCII nor
  newline nor tab nor one of the three bytes \<^verbatim>\<open>'r'\<close>, \<^verbatim>\<open>'f'\<close>, \<^verbatim>\<open>'b'\<close> of its test,
  and for a non-empty input it is true exactly when the count over the length is at
  least 0.3. The length is that of a Go slice of bytes, which the runtime keeps below
  \<open>2\<^sup>4\<^sup>8\<close>; the proof covers every length up to \<open>2\<^sup>5\<^sup>1\<close>.
\<close>

theorem isBinary_threshold:
  "isBinary [] = False
   \<and> ((\<forall>b\<in>set bytes. (0x20 :: nat) \<le> of_char b \<and> of_char b \<le> (0x7E :: nat)) \<longrightarrow>
        isBinary bytes = False)
   \<and> invisibleCount bytes
     = length (filter (\<lambda>b. \<not> (((0x20 :: nat) \<le> of_char b \<and> of_char b \<le> (0x7E :: nat))
                                \<or> b = CHR 0x0A \<or> b = CHR 0x09
                                \<or> b = CHR ''r'' \<or> b = CHR ''f'' \<or> b = CHR ''b'')) bytes)
   \<and> (bytes \<noteq> [] \<and> length bytes < 2 ^ 48 \<longrightarrow>
        isBinary bytes
        = ((3 / 10 :: rat) \<le> of_nat (invisibleCount bytes) / of_nat (length bytes)))"
proof (intro conjI impI)
  show "isBinary [] = False"
    by (simp add: isBinary_def)
next
  assume "\<forall>b\<in>set bytes. (0x20 :: nat) \<le> of_char b \<and> of_char b \<le> (0x7E :: nat)"
  then have "\<forall>b\<in>set bytes. visible b"
    by (auto simp: visible_def)
  then have "invisibleCount bytes = 0"
    by (simp add: invisibleCount_def)
  then show "isBinary bytes = False"
    by (simp add: isBinary_nothing_invisible)
next
  have "visible b = (((0x20 :: nat) \<le> of_char b \<and> of_char b \<le> (0x7E :: nat))
                     \<or> b = CHR 0x0A \<or> b = CHR 0x09
                     \<or> b = CHR ''r'' \<or> b = CHR ''f'' \<or> b = CHR ''b'')" for b
    by (auto simp: visible_def)
  then show "invisibleCount bytes
     = length (filter (\<lambda>b. \<not> (((0x20 :: nat) \<le> of_char b \<and> of_char b \<le> (0x7E :: nat))
                                \<or> b = CHR 0x0A \<or> b = CHR 0x09
                                \<or> b = CHR ''r'' \<or> b = CHR ''f'' \<or> b = CHR ''b'')) bytes)"
    by (simp add: invisibleCount_def)
next
  assume a: "bytes \<noteq> [] \<and> length bytes < 2 ^ 48"
  then have "length bytes \<le> 2 ^ 51"
    by simp
  with a have "isBinary bytes = (3 * length bytes \<le> 10 * invisibleCount bytes)"
    by (simp add: isBinary_ratio)
  also have "\<dots> = ((of_nat (3 * length bytes) :: rat) \<le> of_nat (10 * invisibleCount bytes))"
    by (simp only: of_nat_le_iff)
  also from a have "\<dots> = ((3 / 10 :: rat) \<le> of_nat (invisibleCount bytes) / of_nat (length bytes))"
    by (simp add: field_simps)
  finally show "isBinary bytes
        = ((3 / 10 :: rat) \<le> of_nat (invisibleCount bytes) / of_nat (length bytes))" .
qed

theorem isBinary_threshold_witness:
  "isBinary [CHR 0x01, CHR 0x02, CHR 0xFF, CHR ''a'', CHR ''a'', CHR ''a'', CHR ''a'',
             CHR ''a'', CHR ''a'', CHR ''a'']
   \<and> \<not> isBinary [CHR 0x01, CHR 0x02, CHR ''a'', CHR ''a'', CHR ''a'', CHR ''a'',
                 CHR ''a'', CHR ''a'', CHR ''a'']
   \<and> \<not> isBinary ''hello''"
proof -
  let ?three = "[CHR 0x01, CHR 0x02, CHR 0xFF, CHR ''a'', CHR ''a'', CHR ''a'', CHR ''a'',
             CHR ''a'', CHR ''a'', CHR ''a'']"
  let ?two = "[CHR 0x01, CHR 0x02, CHR ''a'', CHR ''a'', CHR ''a'', CHR ''a'',
                 CHR ''a'', CHR ''a'', CHR ''a'']"
  have count: "invisibleCount ?three = 3" "invisibleCount ?two = 2"
    by (simp_all add: invisibleCount_def visible_def)
  have printable: "\<forall>b\<in>set ''hello''. (0x20 :: nat) \<le> of_char b \<and> of_char b \<le> (0x7E :: nat)"
    by simp
  from isBinary_threshold [of ?three] isBinary_threshold [of ?two]
    isBinary_threshold [of "''hello''"] printable
  show ?thesis
    by (simp add: count)
qed

text \<open>
  Claim C8 at the carriage return. The three bytes the test names after newline and
  tab are the letters \<^verbatim>\<open>r\<close>, \<^verbatim>\<open>f\<close> and \<^verbatim>\<open>b\<close>, which are printable already, so the
  test lets pass the printable bytes, newline and tab and nothing else. The control
  codes carriage return, form feed and backspace are counted: a value that is one
  carriage return is classed as binary, and \<^verbatim>\<open>prettyPrint\<close> shows its bits.
\<close>

theorem isBinary_counts_control_codes:
  "isBinary [CHR 0x0D] \<and> isBinary [CHR 0x0C] \<and> isBinary [CHR 0x08]
   \<and> invisibleCount [CHR 0x0D, CHR 0x0C, CHR 0x08] = 3
   \<and> prettyPrint lib (Scalar [CHR 0x0D]) pfx w isLast = ''00001101''
   \<and> visible (CHR ''r'') \<and> visible (CHR ''f'') \<and> visible (CHR ''b'')
   \<and> visible b
     = (((0x20 :: nat) \<le> of_char b \<and> of_char b \<le> (0x7E :: nat))
        \<or> b = CHR 0x0A \<or> b = CHR 0x09)"
proof -
  have binary: "isBinary [CHR 0x0D]" "isBinary [CHR 0x0C]" "isBinary [CHR 0x08]"
    by code_simp+
  have shown: "bitset [CHR 0x0D] = ''00001101''"
    by code_simp
  have "visible b
     = (((0x20 :: nat) \<le> of_char b \<and> of_char b \<le> (0x7E :: nat))
        \<or> b = CHR 0x0A \<or> b = CHR 0x09)"
    by (auto simp: visible_def)
  with binary shown show ?thesis
    by (simp add: prettyPrint_def invisibleCount_def visible_def)
qed

theorem isBinary_counts_control_codes_witness:
  "isBinary [CHR 0x0D]
   \<and> prettyPrint exampleLibrary (Scalar [CHR 0x0D]) [] True True = ''00001101''
   \<and> visible (CHR 0x0D) = False"
  using isBinary_counts_control_codes [of exampleLibrary "[]" True True "CHR 0x0D"]
  by simp

end
